theory Spec2Isabelle
  imports Main "HOL-Library.Multiset"
begin

section \<open>Python values and built-ins used by \<^verbatim>\<open>car_sequencing_problem.py\<close>\<close>

text \<open>
  Exceptions the modelled code can raise. A function that can raise returns
  \<open>py_error + 'a\<close>, with \<open>Inl\<close> the exception.
\<close>

datatype py_error = IndexError | TypeError | StopIteration | ValueError

text \<open>
  An item of a candidate solution. Python is dynamically typed, so a candidate handed over
  by a search driver can hold anything; \<open>PyInt\<close> is a Python \<^verbatim>\<open>int\<close> (unbounded) and
  \<open>PyNone\<close> stands for an item that is not a number (\<^verbatim>\<open>None\<close>): it supports neither
  \<^verbatim>\<open><\<close> nor use as a list index, and it is equal only to itself.
\<close>

datatype pyval = PyInt int | PyNone

text \<open>
  The object passed as \<^verbatim>\<open>solution\<close>: a \<^verbatim>\<open>list\<close>, a \<^verbatim>\<open>tuple\<close>, any other
  sequence-like container of items (a \<^verbatim>\<open>range\<close>, a \<^verbatim>\<open>deque\<close>, an array), or an object
  that is no sequence at all.
\<close>

datatype candidate =
    PyList "pyval list"
  | PyTuple "pyval list"
  | PySequence "pyval list"
  | PyObject

text \<open>\<^verbatim>\<open>isinstance(solution, (list, tuple))\<close>\<close>

fun isinstance_list_tuple :: "candidate \<Rightarrow> bool" where
  "isinstance_list_tuple (PyList xs) = True"
| "isinstance_list_tuple (PyTuple xs) = True"
| "isinstance_list_tuple (PySequence xs) = False"
| "isinstance_list_tuple PyObject = False"

text \<open>The items of a container, in order (an object that is no sequence has none).\<close>

fun items :: "candidate \<Rightarrow> pyval list" where
  "items (PyList xs) = xs"
| "items (PyTuple xs) = xs"
| "items (PySequence xs) = xs"
| "items PyObject = []"

text \<open>
  What \<^verbatim>\<open>evaluate_solution\<close> returns: the float \<^verbatim>\<open>PENALTY = 1e9\<close>, or the integer
  \<^verbatim>\<open>total_violations\<close>. The two are kept apart by their Python type; an integer total of
  \<open>10^9\<close> would compare equal to the float under Python's \<^verbatim>\<open>==\<close>, and is still
  \<open>Violations 1000000000\<close> here.
\<close>

datatype score = PENALTY | Violations int

text \<open>\<^verbatim>\<open>range(n)\<close>: the integers \<open>0, ..., n - 1\<close>, empty when \<open>n \<le> 0\<close>.\<close>

definition py_range :: "int \<Rightarrow> int list" where
  "py_range n = map int [0..<nat n]"

text \<open>
  \<^verbatim>\<open>xs[i]\<close> on a list: a negative index counts from the end, and an index outside
  \<open>[-len, len)\<close> raises \<^verbatim>\<open>IndexError\<close>.
\<close>

definition py_index :: "'a list \<Rightarrow> int \<Rightarrow> py_error + 'a" where
  "py_index xs i =
     (if 0 \<le> i \<and> i < int (length xs) then Inr (xs ! nat i)
      else if i < 0 \<and> - int (length xs) \<le> i then Inr (xs ! nat (int (length xs) + i))
      else Inl IndexError)"

text \<open>The integers of a list of items, when every item is an integer.\<close>

fun int_items :: "pyval list \<Rightarrow> int list option" where
  "int_items [] = Some []"
| "int_items (PyInt i # xs) = (case int_items xs of None \<Rightarrow> None | Some is \<Rightarrow> Some (i # is))"
| "int_items (PyNone # xs) = None"

text \<open>
  \<^verbatim>\<open>sorted(xs)\<close>. A list of fewer than two items is returned without any comparison.
  Otherwise every item takes part in a comparison \<^verbatim>\<open><\<close>; integers compare by value, and
  a comparison with an item that is not a number raises \<^verbatim>\<open>TypeError\<close>.
\<close>

definition py_sorted :: "pyval list \<Rightarrow> py_error + pyval list" where
  "py_sorted xs =
     (if length xs < 2 then Inr xs
      else case int_items xs of
             None \<Rightarrow> Inl TypeError
           | Some is \<Rightarrow> Inr (map PyInt (sort is)))"

section \<open>The instance\<close>

text \<open>The fields of \<^verbatim>\<open>CarSequencingProblem\<close>.\<close>

record problem =
  nb_positions :: int
  nb_options :: int
  max_cars_per_window :: "int list"
  window_size :: "int list"
  options :: "bool list list"
  initial_sequence :: "int list"

section \<open>\<^verbatim>\<open>evaluate_solution\<close>\<close>

text \<open>
  \<^verbatim>\<open>sequence = [self.initial_sequence[i] for i in solution]\<close>: indexing a list by an item
  that is not an integer raises \<^verbatim>\<open>TypeError\<close>.
\<close>

fun reconstruct :: "problem \<Rightarrow> pyval list \<Rightarrow> py_error + int list" where
  "reconstruct self [] = Inr []"
| "reconstruct self (PyNone # rest) = Inl TypeError"
| "reconstruct self (PyInt i # rest) =
     (case py_index (initial_sequence self) i of
        Inl e \<Rightarrow> Inl e
      | Inr car_class \<Rightarrow>
          (case reconstruct self rest of
             Inl e \<Rightarrow> Inl e
           | Inr sequence \<Rightarrow> Inr (car_class # sequence)))"

text \<open>
  The innermost loop \<^verbatim>\<open>for k in range(w)\<close>, over the values of \<open>k\<close> still to come, with
  the running \<^verbatim>\<open>count\<close>.
\<close>

fun count_loop :: "problem \<Rightarrow> int list \<Rightarrow> int \<Rightarrow> int \<Rightarrow> int list \<Rightarrow> int \<Rightarrow> py_error + int" where
  "count_loop self sequence o' j [] count' = Inr count'"
| "count_loop self sequence o' j (k # ks) count' =
     (case py_index sequence (j + k) of
        Inl e \<Rightarrow> Inl e
      | Inr car_class \<Rightarrow>
          (case py_index (options self) car_class of
             Inl e \<Rightarrow> Inl e
           | Inr row \<Rightarrow>
               (case py_index row o' of
                  Inl e \<Rightarrow> Inl e
                | Inr required \<Rightarrow>
                    count_loop self sequence o' j ks (if required then count' + 1 else count'))))"

text \<open>
  The loop \<^verbatim>\<open>for j in range(self.nb_positions - w + 1)\<close>, over the window starts still to
  come, with the running \<^verbatim>\<open>total_violations\<close>.
\<close>

fun window_loop ::
  "problem \<Rightarrow> int list \<Rightarrow> int \<Rightarrow> int \<Rightarrow> int \<Rightarrow> int list \<Rightarrow> int \<Rightarrow> py_error + int" where
  "window_loop self sequence o' w max_allowed [] total_violations = Inr total_violations"
| "window_loop self sequence o' w max_allowed (j # js) total_violations =
     (case count_loop self sequence o' j (py_range w) 0 of
        Inl e \<Rightarrow> Inl e
      | Inr count' \<Rightarrow>
          window_loop self sequence o' w max_allowed js
            (if count' > max_allowed then total_violations + (count' - max_allowed)
             else total_violations))"

text \<open>The outer loop \<^verbatim>\<open>for o in range(self.nb_options)\<close>.\<close>

fun option_loop :: "problem \<Rightarrow> int list \<Rightarrow> int list \<Rightarrow> int \<Rightarrow> py_error + int" where
  "option_loop self sequence [] total_violations = Inr total_violations"
| "option_loop self sequence (o' # os) total_violations =
     (case py_index (window_size self) o' of
        Inl e \<Rightarrow> Inl e
      | Inr w \<Rightarrow>
          (case py_index (max_cars_per_window self) o' of
             Inl e \<Rightarrow> Inl e
           | Inr max_allowed \<Rightarrow>
               (case window_loop self sequence o' w max_allowed
                       (py_range (nb_positions self - w + 1)) total_violations of
                  Inl e \<Rightarrow> Inl e
                | Inr total' \<Rightarrow> option_loop self sequence os total')))"

definition evaluate_solution :: "problem \<Rightarrow> candidate \<Rightarrow> py_error + score" where
  "evaluate_solution self solution =
     (if \<not> isinstance_list_tuple solution
         \<or> int (length (items solution)) \<noteq> nb_positions self then Inr PENALTY
      else case py_sorted (items solution) of
             Inl e \<Rightarrow> Inl e
           | Inr sorted_solution \<Rightarrow>
               if sorted_solution \<noteq> map PyInt (py_range (nb_positions self)) then Inr PENALTY
               else (case reconstruct self (items solution) of
                       Inl e \<Rightarrow> Inl e
                     | Inr sequence \<Rightarrow>
                         (case option_loop self sequence (py_range (nb_options self)) 0 of
                            Inl e \<Rightarrow> Inl e
                          | Inr total_violations \<Rightarrow> Inr (Violations total_violations))))"

section \<open>\<^verbatim>\<open>_load_instance\<close>\<close>

text \<open>
  The loader works on \<^verbatim>\<open>data\<close>, the integers of the file in order; opening the file and
  \<^verbatim>\<open>int(x)\<close> on its tokens are outside this model. The iterator \<^verbatim>\<open>it\<close> is the list of
  tokens not yet consumed, and \<^verbatim>\<open>next(it)\<close> on an exhausted iterator raises
  \<^verbatim>\<open>StopIteration\<close>.
\<close>

fun py_next :: "int list \<Rightarrow> py_error + (int \<times> int list)" where
  "py_next [] = Inl StopIteration"
| "py_next (x # it) = Inr (x, it)"

text \<open>
  \<^verbatim>\<open>[next(it) for _ in range(n)]\<close>, over the values of the loop variable still to come:
  the tokens read and the iterator after them.
\<close>

fun next_list :: "int list \<Rightarrow> int list \<Rightarrow> py_error + (int list \<times> int list)" where
  "next_list [] it = Inr ([], it)"
| "next_list (u # rng) it =
     (case py_next it of
        Inl e \<Rightarrow> Inl e
      | Inr (x, it') \<Rightarrow>
          (case next_list rng it' of
             Inl e \<Rightarrow> Inl e
           | Inr (xs, it'') \<Rightarrow> Inr (x # xs, it'')))"

text \<open>\<^verbatim>\<open>for _ in range(count): self.initial_sequence.append(c)\<close>\<close>

fun append_loop :: "int list \<Rightarrow> int list \<Rightarrow> int \<Rightarrow> int list" where
  "append_loop seq [] c = seq"
| "append_loop seq (u # rng) c = append_loop (seq @ [c]) rng c"

text \<open>
  The loop \<^verbatim>\<open>for c in range(nb_classes)\<close>, over the classes still to come, with the lists
  \<^verbatim>\<open>nb_cars\<close>, \<^verbatim>\<open>self.options\<close>, \<^verbatim>\<open>self.initial_sequence\<close> built so far and the
  iterator. The indicator list is \<^verbatim>\<open>[next(it) == 1 for _ in range(self.nb_options)]\<close>.
\<close>

fun class_loop ::
  "int \<Rightarrow> int list \<Rightarrow> int list \<Rightarrow> bool list list \<Rightarrow> int list \<Rightarrow> int list
     \<Rightarrow> py_error + (int list \<times> bool list list \<times> int list \<times> int list)" where
  "class_loop nopt [] cars opts seq it = Inr (cars, opts, seq, it)"
| "class_loop nopt (c # cs) cars opts seq it =
     (case py_next it of
        Inl e \<Rightarrow> Inl e
      | Inr (class_index, it1) \<Rightarrow>
          (case py_next it1 of
             Inl e \<Rightarrow> Inl e
           | Inr (count', it2) \<Rightarrow>
               (case next_list (py_range nopt) it2 of
                  Inl e \<Rightarrow> Inl e
                | Inr (indicators, it3) \<Rightarrow>
                    class_loop nopt cs (cars @ [count'])
                      (opts @ [map (\<lambda>x. x = 1) indicators])
                      (append_loop seq (py_range count') c) it3)))"

text \<open>
  What a successful load leaves behind: the instance, the local list \<^verbatim>\<open>nb_cars\<close> and the
  tokens the iterator has not consumed.
\<close>

record loaded =
  built :: problem
  nb_cars :: "int list"
  remaining :: "int list"

definition load_instance :: "int list \<Rightarrow> py_error + loaded" where
  "load_instance data =
     (case py_next data of
        Inl e \<Rightarrow> Inl e
      | Inr (npos, it1) \<Rightarrow>
     (case py_next it1 of
        Inl e \<Rightarrow> Inl e
      | Inr (nopt, it2) \<Rightarrow>
     (case py_next it2 of
        Inl e \<Rightarrow> Inl e
      | Inr (nb_classes, it3) \<Rightarrow>
     (case next_list (py_range nopt) it3 of
        Inl e \<Rightarrow> Inl e
      | Inr (maxs, it4) \<Rightarrow>
     (case next_list (py_range nopt) it4 of
        Inl e \<Rightarrow> Inl e
      | Inr (wins, it5) \<Rightarrow>
     (case class_loop nopt (py_range nb_classes) [] [] [] it5 of
        Inl e \<Rightarrow> Inl e
      | Inr (cars, opts, seq, it6) \<Rightarrow>
          if int (length seq) \<noteq> npos then Inl ValueError
          else Inr \<lparr> built = \<lparr> nb_positions = npos, nb_options = nopt,
                                 max_cars_per_window = maxs, window_size = wins,
                                 options = opts, initial_sequence = seq \<rparr>,
                      nb_cars = cars, remaining = it6 \<rparr>))))))"

section \<open>The data model and the objective, as the specification words them\<close>

text \<open>
  The invariants of the data model: the two per-option lists have \<open>nb_options\<close> entries,
  every row of \<open>options\<close> has \<open>nb_options\<close> entries, \<open>initial_sequence\<close> has
  \<open>nb_positions\<close> entries, and every class id in it is the index of a row of \<open>options\<close>.
  That the counts and the window sizes are positive is not asked for here: nothing below
  needs it.
\<close>

definition invariants :: "problem \<Rightarrow> bool" where
  "invariants self \<longleftrightarrow>
     int (length (max_cars_per_window self)) = nb_options self \<and>
     int (length (window_size self)) = nb_options self \<and>
     list_all (\<lambda>row. int (length row) = nb_options self) (options self) \<and>
     int (length (initial_sequence self)) = nb_positions self \<and>
     list_all (\<lambda>c. 0 \<le> c \<and> c < int (length (options self))) (initial_sequence self)"

text \<open>
  A candidate that is a valid permutation: a list or a tuple whose items are the integers
  \<open>p\<close>, and \<open>p\<close> sorted is \<open>0, ..., nb_positions - 1\<close>.
\<close>

definition valid_permutation :: "problem \<Rightarrow> candidate \<Rightarrow> int list \<Rightarrow> bool" where
  "valid_permutation self solution p \<longleftrightarrow>
     isinstance_list_tuple solution \<and> items solution = map PyInt p
     \<and> sort p = py_range (nb_positions self)"

text \<open>\<open>sequence[k] = initial_sequence[candidate[k]]\<close>\<close>

definition spec_sequence :: "problem \<Rightarrow> int list \<Rightarrow> int list" where
  "spec_sequence self p = map (\<lambda>i. initial_sequence self ! nat i) p"

text \<open>
  The number of positions \<open>k\<close> in \<open>[j, j + window_size[o])\<close> with
  \<open>class_options[sequence[k]][o]\<close> true.
\<close>

definition spec_count :: "problem \<Rightarrow> int list \<Rightarrow> nat \<Rightarrow> int \<Rightarrow> int" where
  "spec_count self sequence o' j =
     int (length (filter (\<lambda>k. options self ! nat (sequence ! nat k) ! o')
                         [j..j + window_size self ! o' - 1]))"

text \<open>
  The reference objective: the sum, over every option \<open>o\<close> in \<open>[0, option_count)\<close> and
  every window start \<open>j\<close> in \<open>[0, position_count - window_size[o]]\<close> inclusive, of
  \<open>max(0, count - max_per_window[o])\<close>.
\<close>

definition spec_excess :: "problem \<Rightarrow> int list \<Rightarrow> nat \<Rightarrow> int" where
  "spec_excess self sequence o' =
     (\<Sum>j\<leftarrow>[0..nb_positions self - window_size self ! o'].
        max 0 (spec_count self sequence o' j - max_cars_per_window self ! o'))"

definition spec_objective :: "problem \<Rightarrow> int list \<Rightarrow> int" where
  "spec_objective self sequence =
     (\<Sum>o'\<leftarrow>[0..<nat (nb_options self)]. spec_excess self sequence o')"

section \<open>The structured description, as the specification lays it out\<close>

text \<open>
  One class of the description: the class-index token, the car count and the indicators.
\<close>

type_synonym class_block = "int \<times> int \<times> int list"

fun car_count :: "class_block \<Rightarrow> int" where
  "car_count (class_index, cnt, indicators) = cnt"

fun indicators :: "class_block \<Rightarrow> int list" where
  "indicators (class_index, cnt, inds) = inds"

fun class_tokens :: "class_block \<Rightarrow> int list" where
  "class_tokens (class_index, cnt, inds) = class_index # cnt # inds"

text \<open>
  The token stream: \<open>nb_positions nb_options nb_classes\<close>, the maximums, the window sizes,
  then the classes one after the other.
\<close>

definition layout ::
  "int \<Rightarrow> int \<Rightarrow> int \<Rightarrow> int list \<Rightarrow> int list \<Rightarrow> class_block list \<Rightarrow> int list" where
  "layout npos nopt ncls maxs wins classes =
     npos # nopt # ncls # maxs @ wins @ concat (map class_tokens classes)"

text \<open>
  The stream has the announced numbers of entries: \<open>nb_options\<close> maximums, window sizes and
  indicators per class, and \<open>nb_classes\<close> classes (a negative announcement announces none).
\<close>

definition well_shaped :: "int \<Rightarrow> int \<Rightarrow> int list \<Rightarrow> int list \<Rightarrow> class_block list \<Rightarrow> bool" where
  "well_shaped nopt ncls maxs wins classes \<longleftrightarrow>
     length maxs = nat nopt \<and> length wins = nat nopt \<and> length classes = nat ncls
     \<and> list_all (\<lambda>b. length (indicators b) = nat nopt) classes"

text \<open>
  The per-class car counts expanded into that many repeated entries of the class id, for the
  classes numbered by \<open>cs\<close>; a count that is not positive gives no entry.
\<close>

definition expand_counts :: "int list \<Rightarrow> class_block list \<Rightarrow> int list" where
  "expand_counts cs classes =
     concat (map (\<lambda>(c, b). replicate (nat (car_count b)) c) (zip cs classes))"

text \<open>The instance the specification describes for a stream of that layout.\<close>

definition described :: "int \<Rightarrow> int \<Rightarrow> int list \<Rightarrow> int list \<Rightarrow> class_block list \<Rightarrow> problem" where
  "described npos nopt maxs wins classes =
     \<lparr> nb_positions = npos, nb_options = nopt, max_cars_per_window = maxs,
       window_size = wins,
       options = map (\<lambda>b. map (\<lambda>x. x = 1) (indicators b)) classes,
       initial_sequence = expand_counts (py_range (int (length classes))) classes \<rparr>"

section \<open>Concrete instances\<close>

text \<open>The instance of the concrete scenario of the specification.\<close>

definition scenario :: problem where
  "scenario = \<lparr> nb_positions = 4, nb_options = 1, max_cars_per_window = [1],
                window_size = [2], options = [[True], [False]],
                initial_sequence = [0, 0, 1, 1] \<rparr>"

text \<open>
  An instance whose first option has a window longer than the sequence: two positions, two
  options with windows of 3 and 1, no car allowed per window, one class requiring both.
\<close>

definition oversized :: problem where
  "oversized = \<lparr> nb_positions = 2, nb_options = 2, max_cars_per_window = [0, 0],
                 window_size = [3, 1], options = [[True, True]],
                 initial_sequence = [0, 0] \<rparr>"

section \<open>The loops compute the reference objective\<close>

lemma py_index_in_range:
  "0 \<le> i \<Longrightarrow> i < int (length xs) \<Longrightarrow> py_index xs i = Inr (xs ! nat i)"
  by (simp add: py_index_def)

lemma set_py_range: "set (py_range n) = {i. 0 \<le> i \<and> i < n}"
proof -
  have "i \<in> int ` {0..<nat n} \<longleftrightarrow> 0 \<le> i \<and> i < n" for i
  proof
    assume "i \<in> int ` {0..<nat n}"
    then obtain m where "i = int m" "m < nat n" by auto
    then show "0 \<le> i \<and> i < n" by simp
  next
    assume h: "0 \<le> i \<and> i < n"
    then have "nat i < nat n" "i = int (nat i)" by simp_all
    then show "i \<in> int ` {0..<nat n}" by (metis atLeastLessThan_iff image_eqI le0)
  qed
  then show ?thesis unfolding py_range_def by auto
qed

lemma length_py_range: "length (py_range n) = nat n"
  by (simp add: py_range_def)

lemma int_items_map_PyInt: "int_items (map PyInt p) = Some p"
  by (induction p) simp_all

lemma sort_short: "length (p :: int list) < 2 \<Longrightarrow> sort p = p"
  by (cases p; cases "tl p") auto

lemma py_sorted_ints: "py_sorted (map PyInt p) = Inr (map PyInt (sort p))"
  by (simp add: py_sorted_def int_items_map_PyInt sort_short)

lemma reconstruct_ints:
  "\<forall>i \<in> set p. 0 \<le> i \<and> i < int (length (initial_sequence self)) \<Longrightarrow>
   reconstruct self (map PyInt p) = Inr (spec_sequence self p)"
  by (induction p) (simp_all add: spec_sequence_def py_index_in_range)

lemma upto_as_py_range: "[j..j + w - 1] = map (\<lambda>k. j + k) (py_range w)"
proof (cases "0 \<le> w")
  case False
  then show ?thesis by (simp add: py_range_def)
next
  case True
  then obtain m where w: "w = int m" using nonneg_int_cases by blast
  have "[j..j + int m - 1] = map (\<lambda>k. j + k) (map int [0..<m])"
  proof (induction m)
    case 0
    then show ?case by simp
  next
    case (Suc m)
    have "[j..j + int (Suc m) - 1] = [j..j + int m - 1] @ [j + int m]"
      using upto_rec2 [of j "j + int m"] by simp
    then show ?case using Suc by simp
  qed
  then show ?thesis by (simp add: w py_range_def)
qed


lemma count_loop_eq:
  assumes "\<forall>k \<in> set ks. 0 \<le> j + k \<and> j + k < int (length sequence)"
    and "\<forall>c \<in> set sequence. 0 \<le> c \<and> c < int (length (options self))"
    and "\<forall>row \<in> set (options self). o' < length row"
  shows "count_loop self sequence (int o') j ks c =
         Inr (c + int (length (filter (\<lambda>k. options self ! nat (sequence ! nat (j + k)) ! o') ks)))"
  using assms(1)
proof (induction ks arbitrary: c)
  case Nil
  then show ?case by simp
next
  case (Cons k ks)
  from Cons.prems have k: "0 \<le> j + k" "j + k < int (length sequence)" by simp_all
  then have mem: "sequence ! nat (j + k) \<in> set sequence" by simp
  with assms(2) have c: "0 \<le> sequence ! nat (j + k)"
    "sequence ! nat (j + k) < int (length (options self))" by blast+
  then have "options self ! nat (sequence ! nat (j + k)) \<in> set (options self)" by simp
  with assms(3) have r: "o' < length (options self ! nat (sequence ! nat (j + k)))" by blast
  have ih: "\<And>c. count_loop self sequence (int o') j ks c =
         Inr (c + int (length (filter (\<lambda>k. options self ! nat (sequence ! nat (j + k)) ! o') ks)))"
    using Cons.IH Cons.prems by simp
  show ?case
    using k c r by (simp add: py_index_in_range ih)
qed

lemma window_loop_eq:
  assumes "\<forall>j \<in> set js. \<forall>k \<in> set (py_range w). 0 \<le> j + k \<and> j + k < int (length sequence)"
    and "\<forall>c \<in> set sequence. 0 \<le> c \<and> c < int (length (options self))"
    and "\<forall>row \<in> set (options self). o' < length row"
  shows "window_loop self sequence (int o') w m js t =
         Inr (t + (\<Sum>j\<leftarrow>js. max 0 (int (length (filter (\<lambda>k. options self ! nat (sequence ! nat (j + k)) ! o') (py_range w))) - m)))"
  using assms(1)
proof (induction js arbitrary: t)
  case Nil
  then show ?case by simp
next
  case (Cons j js)
  have cl: "count_loop self sequence (int o') j (py_range w) 0 =
     Inr (0 + int (length (filter (\<lambda>k. options self ! nat (sequence ! nat (j + k)) ! o') (py_range w))))"
    using Cons.prems by (intro count_loop_eq assms(2,3)) simp
  have ih: "\<And>t. window_loop self sequence (int o') w m js t =
         Inr (t + (\<Sum>j\<leftarrow>js. max 0 (int (length (filter (\<lambda>k. options self ! nat (sequence ! nat (j + k)) ! o') (py_range w))) - m)))"
    using Cons.IH Cons.prems by simp
  show ?case
    by (simp add: cl ih max_def)
qed

lemma spec_count_code:
  "spec_count self sequence o' j =
   int (length (filter (\<lambda>k. options self ! nat (sequence ! nat (j + k)) ! o') (py_range (window_size self ! o'))))"
proof -
  have "[j..j + window_size self ! o' - 1] = map (\<lambda>k. j + k) (py_range (window_size self ! o'))"
    by (rule upto_as_py_range)
  then show ?thesis
    unfolding spec_count_def by (simp only: filter_map length_map comp_def)
qed

lemma upto_0_as_py_range: "[0..n] = py_range (n + 1)"
  using upto_as_py_range [of 0 "n + 1"] by simp

lemma window_range_ok:
  assumes "j \<in> set (py_range (n - w + 1))" "k \<in> set (py_range w)"
  shows "0 \<le> j + k \<and> j + k < n"
  using assms by (auto simp: set_py_range)

lemma option_loop_eq:
  assumes "int (length sequence) = nb_positions self"
    and "\<forall>c \<in> set sequence. 0 \<le> c \<and> c < int (length (options self))"
    and "\<forall>row \<in> set (options self). int (length row) = nb_options self"
    and "int (length (window_size self)) = nb_options self"
    and "int (length (max_cars_per_window self)) = nb_options self"
    and "\<forall>o' \<in> set os. int o' < nb_options self"
  shows "option_loop self sequence (map int os) t =
         Inr (t + (\<Sum>o'\<leftarrow>os. spec_excess self sequence o'))"
  using assms(6)
proof (induction os arbitrary: t)
  case Nil
  then show ?case by simp
next
  case (Cons a os)
  from Cons.prems have a: "int a < nb_options self" by simp
  have rows: "\<forall>row \<in> set (options self). a < length row"
    using assms(3) a by auto
  have rng: "\<forall>j \<in> set (py_range (nb_positions self - window_size self ! a + 1)).
             \<forall>k \<in> set (py_range (window_size self ! a)). 0 \<le> j + k \<and> j + k < int (length sequence)"
    using window_range_ok assms(1) by simp
  have wl: "\<And>t. window_loop self sequence (int a) (window_size self ! a) (max_cars_per_window self ! a)
              (py_range (nb_positions self - window_size self ! a + 1)) t =
            Inr (t + spec_excess self sequence a)"
    unfolding spec_excess_def spec_count_code upto_0_as_py_range
    using window_loop_eq [OF rng assms(2) rows] by simp
  have ih: "\<And>t. option_loop self sequence (map int os) t =
         Inr (t + (\<Sum>o'\<leftarrow>os. spec_excess self sequence o'))"
    using Cons.IH Cons.prems by simp
  show ?case
    using a assms(4,5) by (simp add: py_index_in_range wl ih)
qed


lemma sort_eq_py_range:
  assumes "sort p = py_range n"
  shows "set p = {i. 0 \<le> i \<and> i < n}" and "length p = nat n"
proof -
  have "set p = set (sort p)" by simp
  then show "set p = {i. 0 \<le> i \<and> i < n}" by (simp only: assms set_py_range)
  have "length p = length (sort p)" by simp
  then show "length p = nat n" by (simp only: assms length_py_range)
qed

lemma invariants_nonneg: "invariants self \<Longrightarrow> 0 \<le> nb_positions self"
  unfolding invariants_def by linarith

lemma spec_sequence_classes:
  assumes "invariants self" and "set p \<subseteq> {i. 0 \<le> i \<and> i < nb_positions self}"
  shows "\<forall>c \<in> set (spec_sequence self p). 0 \<le> c \<and> c < int (length (options self))"
proof
  fix c assume "c \<in> set (spec_sequence self p)"
  then obtain i where i: "i \<in> set p" "c = initial_sequence self ! nat i"
    by (auto simp: spec_sequence_def)
  with assms have "nat i < length (initial_sequence self)"
    unfolding invariants_def by auto
  then have "c \<in> set (initial_sequence self)" using i by simp
  with assms(1) show "0 \<le> c \<and> c < int (length (options self))"
    unfolding invariants_def list_all_iff by blast
qed

lemma option_loop_invariants:
  assumes inv: "invariants self" and p: "set p \<subseteq> {i. 0 \<le> i \<and> i < nb_positions self}"
    and len: "int (length p) = nb_positions self"
  shows "option_loop self (spec_sequence self p) (py_range (nb_options self)) 0 =
         Inr (spec_objective self (spec_sequence self p))"
proof -
  have 1: "int (length (spec_sequence self p)) = nb_positions self"
    using len by (simp add: spec_sequence_def)
  have 3: "\<forall>row \<in> set (options self). int (length row) = nb_options self"
    using inv unfolding invariants_def list_all_iff by blast
  have 4: "int (length (window_size self)) = nb_options self"
    and 5: "int (length (max_cars_per_window self)) = nb_options self"
    using inv unfolding invariants_def by simp_all
  have 6: "\<forall>o' \<in> set [0..<nat (nb_options self)]. int o' < nb_options self"
    by auto
  show ?thesis
    unfolding py_range_def spec_objective_def
    using option_loop_eq [OF 1 spec_sequence_classes [OF inv p] 3 4 5 6, of 0] by simp
qed

lemma evaluate_solution_valid:
  assumes inv: "invariants self" and v: "valid_permutation self solution p"
  shows "evaluate_solution self solution =
         Inr (Violations (spec_objective self (spec_sequence self p)))"
proof -
  from v have isin: "isinstance_list_tuple solution" and it: "items solution = map PyInt p"
    and srt: "sort p = py_range (nb_positions self)"
    unfolding valid_permutation_def by simp_all
  have setp: "set p = {i. 0 \<le> i \<and> i < nb_positions self}"
    and lenp: "length p = nat (nb_positions self)"
    using sort_eq_py_range [OF srt] by simp_all
  have len: "int (length p) = nb_positions self"
    using lenp invariants_nonneg [OF inv] by simp
  have rec: "reconstruct self (map PyInt p) = Inr (spec_sequence self p)"
    using inv setp by (intro reconstruct_ints) (simp add: invariants_def)
  have ol: "option_loop self (spec_sequence self p) (py_range (nb_options self)) 0 =
         Inr (spec_objective self (spec_sequence self p))"
    using option_loop_invariants [OF inv _ len] setp by simp
  show ?thesis
    unfolding evaluate_solution_def
    by (simp add: isin it len py_sorted_ints srt rec ol)
qed

lemma sort_py_range: "sort (py_range n) = py_range n"
proof -
  have "sorted (map int [0..<nat n])"
    by (simp add: sorted_map sorted_wrt_mono_rel [OF _ sorted_wrt_upt])
  then show ?thesis unfolding py_range_def by (rule sort_key_id_if_sorted [of "\<lambda>x. x", simplified])
qed

lemma spec_sequence_identity:
  "int (length (initial_sequence self)) = nb_positions self \<Longrightarrow>
   spec_sequence self (py_range (nb_positions self)) = initial_sequence self"
proof -
  assume a: "int (length (initial_sequence self)) = nb_positions self"
  then have n: "nat (nb_positions self) = length (initial_sequence self)" by simp
  show ?thesis
    unfolding spec_sequence_def py_range_def n
    by (simp add: comp_def map_nth)
qed


section \<open>Raising one limit\<close>

lemma py_index_list_update:
  assumes "py_index xs i = Inr v" and "xs ! a \<le> (m' :: int)"
  shows "\<exists>v'. py_index (xs[a := m']) i = Inr v' \<and> v \<le> v'"
proof (cases "0 \<le> i")
  case True
  with assms(1) have r: "i < int (length xs)" "v = xs ! nat i"
    by (auto simp: py_index_def split: if_splits)
  then have "py_index (xs[a := m']) i = Inr ((xs[a := m']) ! nat i)"
    using True by (simp add: py_index_def)
  moreover have "v \<le> (xs[a := m']) ! nat i"
    using r assms(2) True by (cases "nat i = a") (auto simp: nth_list_update)
  ultimately show ?thesis by blast
next
  case False
  with assms(1) have r: "- int (length xs) \<le> i" "v = xs ! nat (int (length xs) + i)"
    by (auto simp: py_index_def split: if_splits)
  then have "py_index (xs[a := m']) i = Inr ((xs[a := m']) ! nat (int (length xs) + i))"
    using False by (simp add: py_index_def)
  moreover have "nat (int (length xs) + i) < length xs"
    using False r(1) by linarith
  then have "v \<le> (xs[a := m']) ! nat (int (length xs) + i)"
    using r assms(2) by (cases "nat (int (length xs) + i) = a") (auto simp: nth_list_update)
  ultimately show ?thesis by blast
qed

lemma count_loop_max_update:
  "count_loop (self\<lparr>max_cars_per_window := ms\<rparr>) sequence o' j ks c =
   count_loop self sequence o' j ks c"
  by (induction ks arbitrary: c) (simp_all split: sum.splits)

lemma reconstruct_max_update:
  "reconstruct (self\<lparr>max_cars_per_window := ms\<rparr>) xs = reconstruct self xs"
proof (induction xs)
  case Nil
  then show ?case by simp
next
  case (Cons x xs)
  then show ?case by (cases x) (simp_all split: sum.splits)
qed

lemma window_loop_mono:
  assumes "m \<le> m'"
  shows "t' \<le> t \<Longrightarrow> window_loop self sequence o' w m js t = Inr v \<Longrightarrow>
         \<exists>v'. window_loop (self\<lparr>max_cars_per_window := ms\<rparr>) sequence o' w m' js t' = Inr v'
              \<and> v' \<le> v"
proof (induction js arbitrary: t t')
  case Nil
  then show ?case by simp
next
  case (Cons j js)
  from Cons.prems(2) obtain c where c: "count_loop self sequence o' j (py_range w) 0 = Inr c"
    by (auto split: sum.splits)
  let ?t = "if c > m then t + (c - m) else t"
  let ?t' = "if c > m' then t' + (c - m') else t'"
  have le: "?t' \<le> ?t" using assms Cons.prems(1) by auto
  have run: "window_loop self sequence o' w m js ?t = Inr v"
    using Cons.prems(2) c by simp
  from Cons.IH [OF le run] show ?case
    by (simp add: count_loop_max_update c)
qed

lemma option_loop_mono:
  assumes "max_cars_per_window self ! a \<le> m'"
  shows "t' \<le> t \<Longrightarrow> option_loop self sequence os t = Inr v \<Longrightarrow>
         \<exists>v'. option_loop (self\<lparr>max_cars_per_window := (max_cars_per_window self)[a := m']\<rparr>)
                 sequence os t' = Inr v' \<and> v' \<le> v"
proof (induction os arbitrary: t t')
  case Nil
  then show ?case by simp
next
  case (Cons b os)
  let ?self' = "self\<lparr>max_cars_per_window := (max_cars_per_window self)[a := m']\<rparr>"
  from Cons.prems(2) obtain w where w: "py_index (window_size self) b = Inr w"
    by (auto split: sum.splits)
  from Cons.prems(2) w obtain m where m: "py_index (max_cars_per_window self) b = Inr m"
    by (auto split: sum.splits)
  from Cons.prems(2) w m obtain u where
    u: "window_loop self sequence b w m (py_range (nb_positions self - w + 1)) t = Inr u"
    by (auto split: sum.splits)
  have rest: "option_loop self sequence os u = Inr v"
    using Cons.prems(2) w m u by simp
  from py_index_list_update [OF m assms] obtain m2 where
    m2: "py_index ((max_cars_per_window self)[a := m']) b = Inr m2" "m \<le> m2" by blast
  from window_loop_mono [OF m2(2) Cons.prems(1) u] obtain u' where
    u': "window_loop ?self' sequence b w m2 (py_range (nb_positions self - w + 1)) t' = Inr u'"
      "u' \<le> u" by blast
  from Cons.IH [OF u'(2) rest] show ?case
    by (simp add: w m2(1) u'(1))
qed

lemma evaluate_solution_mono:
  assumes "max_cars_per_window self ! a \<le> m'"
    and "evaluate_solution self solution = Inr (Violations v)"
  shows "\<exists>v'. evaluate_solution
                (self\<lparr>max_cars_per_window := (max_cars_per_window self)[a := m']\<rparr>) solution
              = Inr (Violations v') \<and> v' \<le> v"
proof -
  let ?self' = "self\<lparr>max_cars_per_window := (max_cars_per_window self)[a := m']\<rparr>"
  have rec: "reconstruct ?self' xs = reconstruct self xs" for xs
    by (rule reconstruct_max_update)
  from assms(2) obtain ys where ys: "py_sorted (items solution) = Inr ys"
    and a1: "isinstance_list_tuple solution"
    and a2: "int (length (items solution)) = nb_positions self"
    and a3: "ys = map PyInt (py_range (nb_positions self))"
    unfolding evaluate_solution_def by (auto split: if_splits sum.splits)
  from assms(2) ys a1 a2 a3 obtain sequence where
    s: "reconstruct self (items solution) = Inr sequence"
    unfolding evaluate_solution_def by (auto split: if_splits sum.splits)
  from assms(2) ys a1 a2 a3 s have
    ol: "option_loop self sequence (py_range (nb_options self)) 0 = Inr v"
    unfolding evaluate_solution_def by (auto split: if_splits sum.splits)
  from option_loop_mono [OF assms(1) order_refl ol] obtain v' where
    v': "option_loop ?self' sequence (py_range (nb_options self)) 0 = Inr v'" "v' \<le> v"
    by blast
  have "evaluate_solution ?self' solution = Inr (Violations v')"
    unfolding evaluate_solution_def using ys a1 a2 a3 s v'(1) by (simp add: rec)
  with v'(2) show ?thesis by blast
qed

lemma sum_list_filter_zero:
  "f (a::nat) = (0::int) \<Longrightarrow> sum_list (map f xs) = sum_list (map f (filter (\<lambda>b. b \<noteq> a) xs))"
  by (induction xs) auto

section \<open>The score of a valid permutation\<close>

text \<open>
  C1. For every instance satisfying the invariants of the data model and every candidate
  that is a valid permutation of \<open>[0, nb_positions)\<close> (a list or a tuple holding the
  integers \<open>p\<close>), \<^verbatim>\<open>evaluate_solution\<close> returns the reference objective of the
  specification: the sum over the options \<open>o\<close> and the window starts \<open>j\<close> in
  \<open>[0, nb_positions - window_size[o]]\<close> of \<open>max(0, count - max_cars_per_window[o])\<close>,
  with \<open>count\<close> taken over \<open>sequence[k] = initial_sequence[p[k]]\<close>; every window counts
  on its own.
\<close>

theorem evaluate_solution_reference:
  assumes "invariants self" and "valid_permutation self solution p"
  shows "evaluate_solution self solution =
         Inr (Violations
           (\<Sum>o'\<leftarrow>[0..<nat (nb_options self)].
              \<Sum>j\<leftarrow>[0..nb_positions self - window_size self ! o'].
                max 0 (spec_count self (spec_sequence self p) o' j
                       - max_cars_per_window self ! o')))"
  using evaluate_solution_valid [OF assms]
  by (simp add: spec_objective_def spec_excess_def)

theorem evaluate_solution_reference_witness:
  "invariants scenario
   \<and> valid_permutation scenario (PyList [PyInt 0, PyInt 2, PyInt 1, PyInt 3]) [0, 2, 1, 3]
   \<and> evaluate_solution scenario (PyList [PyInt 0, PyInt 2, PyInt 1, PyInt 3]) =
       Inr (Violations
         (\<Sum>o'\<leftarrow>[0..<nat (nb_options scenario)].
            \<Sum>j\<leftarrow>[0..nb_positions scenario - window_size scenario ! o'].
              max 0 (spec_count scenario (spec_sequence scenario [0, 2, 1, 3]) o' j
                     - max_cars_per_window scenario ! o')))
   \<and> evaluate_solution scenario (PyList [PyInt 0, PyInt 2, PyInt 1, PyInt 3]) =
       Inr (Violations 0)"
proof -
  have i: "invariants scenario"
    by code_simp
  have v: "valid_permutation scenario (PyList [PyInt 0, PyInt 2, PyInt 1, PyInt 3]) [0, 2, 1, 3]"
    by code_simp
  have e: "evaluate_solution scenario (PyList [PyInt 0, PyInt 2, PyInt 1, PyInt 3]) =
             Inr (Violations 0)"
    by code_simp
  show ?thesis
    using i v e evaluate_solution_reference [OF i v] by simp
qed

section \<open>The identity candidate\<close>

text \<open>
  C4. For every instance (satisfying the invariants of the data model), the reconstruction
  step \<open>sequence[i] = initial_sequence[candidate[i]]\<close> applied to the identity candidate
  \<open>[0, 1, ..., nb_positions - 1]\<close> yields \<open>initial_sequence\<close> itself, and the score of the
  identity candidate, as a list or as a tuple, is the reference objective computed on
  \<open>initial_sequence\<close>.
\<close>

theorem identity_candidate:
  assumes "invariants self"
  shows "reconstruct self (map PyInt (py_range (nb_positions self))) = Inr (initial_sequence self)
       \<and> evaluate_solution self (PyList (map PyInt (py_range (nb_positions self)))) =
           Inr (Violations (spec_objective self (initial_sequence self)))
       \<and> evaluate_solution self (PyTuple (map PyInt (py_range (nb_positions self)))) =
           Inr (Violations (spec_objective self (initial_sequence self)))"
proof -
  have len: "int (length (initial_sequence self)) = nb_positions self"
    using assms by (simp add: invariants_def)
  have seq: "spec_sequence self (py_range (nb_positions self)) = initial_sequence self"
    using len by (rule spec_sequence_identity)
  have "\<forall>i \<in> set (py_range (nb_positions self)).
          0 \<le> i \<and> i < int (length (initial_sequence self))"
    by (simp add: set_py_range len)
  then have r: "reconstruct self (map PyInt (py_range (nb_positions self))) =
                  Inr (initial_sequence self)"
    using reconstruct_ints [of "py_range (nb_positions self)" self] seq by simp
  have l: "valid_permutation self (PyList (map PyInt (py_range (nb_positions self))))
             (py_range (nb_positions self))"
    and t: "valid_permutation self (PyTuple (map PyInt (py_range (nb_positions self))))
             (py_range (nb_positions self))"
    by (simp_all add: valid_permutation_def sort_py_range)
  show ?thesis
    using r evaluate_solution_valid [OF assms l] evaluate_solution_valid [OF assms t] seq
    by simp
qed

theorem identity_candidate_witness:
  "invariants scenario
   \<and> reconstruct scenario [PyInt 0, PyInt 1, PyInt 2, PyInt 3] = Inr [0, 0, 1, 1]
   \<and> evaluate_solution scenario (PyList [PyInt 0, PyInt 1, PyInt 2, PyInt 3]) = Inr (Violations 1)
   \<and> evaluate_solution scenario (PyTuple [PyInt 0, PyInt 1, PyInt 2, PyInt 3]) = Inr (Violations 1)
   \<and> spec_objective scenario (initial_sequence scenario) = 1"
proof -
  have i: "invariants scenario"
    by code_simp
  have n: "map PyInt (py_range (nb_positions scenario)) = [PyInt 0, PyInt 1, PyInt 2, PyInt 3]"
    by code_simp
  have s: "initial_sequence scenario = [0, 0, 1, 1]"
    by (simp add: scenario_def)
  have o: "spec_objective scenario (initial_sequence scenario) = 1"
    by code_simp
  show ?thesis
    using i o identity_candidate [OF i] unfolding n s by simp
qed

section \<open>When the sentinel is returned\<close>




section \<open>Totality\<close>

text \<open>
  The claim C3 as worded says that \<^verbatim>\<open>evaluate_solution\<close> never raises on any candidate of
  the expected shape (any sequence-like value). On the instance of the concrete scenario, which
  satisfies the invariants, the list \<open>[0, None, 2, 3]\<close> has the right length, and
  \<^verbatim>\<open>sorted\<close> raises \<^verbatim>\<open>TypeError\<close> on it: nothing in the code looks at the type of the
  items before comparing them.
\<close>

theorem evaluate_solution_total_counterexample:
  "invariants scenario
   \<and> evaluate_solution scenario (PyList [PyInt 0, PyNone, PyInt 2, PyInt 3]) = Inl TypeError"
  by code_simp

text \<open>
  C3, amended. For every instance satisfying the invariants of the data model and every
  candidate that is not a list or a tuple, or whose items are all integers (\<open>q\<close>),
  \<^verbatim>\<open>evaluate_solution\<close> neither raises nor indexes out of bounds: it returns the integer
  score when the candidate is a list or a tuple and \<open>q\<close> is a permutation of
  \<open>0, ..., nb_positions - 1\<close>, and the sentinel in every other case.
\<close>

theorem evaluate_solution_total:
  assumes "invariants self"
    and "\<not> isinstance_list_tuple solution \<or> items solution = map PyInt q"
  shows "evaluate_solution self solution =
         (if isinstance_list_tuple solution \<and> sort q = py_range (nb_positions self)
          then Inr (Violations (spec_objective self (spec_sequence self q)))
          else Inr PENALTY)"
proof (cases "isinstance_list_tuple solution")
  case False
  then show ?thesis by (simp add: evaluate_solution_def)
next
  case True
  with assms(2) have it: "items solution = map PyInt q" by simp
  show ?thesis
  proof (cases "sort q = py_range (nb_positions self)")
    case s: True
    with True it have "valid_permutation self solution q"
      by (simp add: valid_permutation_def)
    from evaluate_solution_valid [OF assms(1) this] True s show ?thesis by simp
  next
    case s: False
    have "map PyInt (sort q) \<noteq> map PyInt (py_range (nb_positions self))"
      using s by (simp add: inj_on_def)
    then show ?thesis
      using s by (simp add: evaluate_solution_def it py_sorted_ints)
  qed
qed

theorem evaluate_solution_total_witness:
  "invariants scenario
   \<and> evaluate_solution scenario (PyList [PyInt 3, PyInt 7, PyInt (- 1), PyInt 3]) = Inr PENALTY
   \<and> evaluate_solution scenario (PyTuple [PyInt 3, PyInt 1, PyInt 2, PyInt 0]) = Inr (Violations 0)
   \<and> evaluate_solution scenario (PySequence [PyNone]) = Inr PENALTY"
proof -
  have i: "invariants scenario"
    by code_simp
  have a: "\<not> isinstance_list_tuple (PyList [PyInt 3, PyInt 7, PyInt (- 1), PyInt 3])
           \<or> items (PyList [PyInt 3, PyInt 7, PyInt (- 1), PyInt 3]) = map PyInt [3, 7, - 1, 3]"
    by simp
  have b: "\<not> isinstance_list_tuple (PyTuple [PyInt 3, PyInt 1, PyInt 2, PyInt 0])
           \<or> items (PyTuple [PyInt 3, PyInt 1, PyInt 2, PyInt 0]) = map PyInt [3, 1, 2, 0]"
    by simp
  have c: "\<not> isinstance_list_tuple (PySequence [PyNone])
           \<or> items (PySequence [PyNone]) = map PyInt []"
    by simp
  have sa: "sort [3, 7, - 1, 3] \<noteq> py_range (nb_positions scenario)"
    by code_simp
  have sb: "sort [3, 1, 2, 0] = py_range (nb_positions scenario)"
    by code_simp
  have ob: "spec_objective scenario (spec_sequence scenario [3, 1, 2, 0]) = 0"
    by code_simp
  show ?thesis
    using i evaluate_solution_total [OF i a] evaluate_solution_total [OF i b]
      evaluate_solution_total [OF i c] sa sb ob
    by simp
qed

section \<open>A window longer than the sequence\<close>

text \<open>
  C5. For every instance (satisfying the invariants) and every option \<open>o\<close> with
  \<open>window_size[o] > nb_positions\<close>, option \<open>o\<close> contributes zero to the score of every
  valid permutation candidate: the range of window starts is empty, the loop over the
  windows leaves the running total as it is and so does the whole iteration for \<open>o\<close>, the
  score is the sum of what the other options contribute, and nothing is raised.
\<close>

theorem oversized_window_contributes_nothing:
  assumes "invariants self" and "valid_permutation self solution p"
    and "int o' < nb_options self" and "nb_positions self < window_size self ! o'"
  shows "py_range (nb_positions self - window_size self ! o' + 1) = []
       \<and> window_loop self sequence (int o') (window_size self ! o') m
            (py_range (nb_positions self - window_size self ! o' + 1)) t = Inr t
       \<and> option_loop self sequence (int o' # os) t = option_loop self sequence os t
       \<and> evaluate_solution self solution =
           Inr (Violations (\<Sum>a\<leftarrow>filter (\<lambda>a. a \<noteq> o') [0..<nat (nb_options self)].
                               spec_excess self (spec_sequence self p) a))"
proof -
  have e: "py_range (nb_positions self - window_size self ! o' + 1) = []"
    using assms(4) by (simp add: py_range_def)
  have w: "py_index (window_size self) (int o') = Inr (window_size self ! o')"
    and x: "py_index (max_cars_per_window self) (int o') = Inr (max_cars_per_window self ! o')"
    using assms(1,3) by (simp_all add: invariants_def py_index_in_range)
  have z: "spec_excess self (spec_sequence self p) o' = 0"
    using assms(4) by (simp add: spec_excess_def)
  have "spec_objective self (spec_sequence self p) =
        (\<Sum>a\<leftarrow>filter (\<lambda>a. a \<noteq> o') [0..<nat (nb_options self)].
            spec_excess self (spec_sequence self p) a)"
    unfolding spec_objective_def using z by (rule sum_list_filter_zero)
  then show ?thesis
    using evaluate_solution_valid [OF assms(1,2)] by (simp add: e w x)
qed

theorem oversized_window_contributes_nothing_witness:
  "invariants oversized
   \<and> valid_permutation oversized (PyList [PyInt 1, PyInt 0]) [1, 0]
   \<and> int 0 < nb_options oversized
   \<and> nb_positions oversized < window_size oversized ! 0
   \<and> py_range (nb_positions oversized - window_size oversized ! 0 + 1) = []
   \<and> option_loop oversized [0, 0] [0, 1] 0 = option_loop oversized [0, 0] [1] 0
   \<and> evaluate_solution oversized (PyList [PyInt 1, PyInt 0]) = Inr (Violations 2)
   \<and> spec_excess oversized (spec_sequence oversized [1, 0]) 1 = 2"
proof -
  have i: "invariants oversized"
    by code_simp
  have v: "valid_permutation oversized (PyList [PyInt 1, PyInt 0]) [1, 0]"
    by code_simp
  have o: "int 0 < nb_options oversized"
    by code_simp
  have g: "nb_positions oversized < window_size oversized ! 0"
    by code_simp
  have f: "filter (\<lambda>a. a \<noteq> 0) [0..<nat (nb_options oversized)] = [1]"
    by code_simp
  have x: "spec_excess oversized (spec_sequence oversized [1, 0]) 1 = 2"
    by code_simp
  show ?thesis
    using i v o g x oversized_window_contributes_nothing [OF i v o g, of "[0, 0]" 0 0 "[1]"]
    unfolding f by simp
qed

section \<open>Monotonicity in one limit\<close>

text \<open>
  C6. For every instance (satisfying the invariants), every option \<open>a\<close> and every valid
  permutation candidate, replacing \<open>max_cars_per_window[a]\<close> by a larger or equal value
  \<open>m'\<close>, with every other field and the candidate unchanged, gives a score that is not
  larger.
\<close>

theorem raising_limit_never_increases_score:
  assumes "invariants self" and "valid_permutation self solution p"
    and "max_cars_per_window self ! a \<le> m'"
  shows "\<exists>v v'. evaluate_solution self solution = Inr (Violations v)
           \<and> evaluate_solution
                (self\<lparr>max_cars_per_window := (max_cars_per_window self)[a := m']\<rparr>) solution
              = Inr (Violations v')
           \<and> v' \<le> v"
  using evaluate_solution_valid [OF assms(1,2)] evaluate_solution_mono [OF assms(3)]
  by blast

theorem raising_limit_never_increases_score_witness:
  "invariants scenario
   \<and> valid_permutation scenario (PyList [PyInt 0, PyInt 1, PyInt 2, PyInt 3]) [0, 1, 2, 3]
   \<and> max_cars_per_window scenario ! 0 \<le> 2
   \<and> evaluate_solution scenario (PyList [PyInt 0, PyInt 1, PyInt 2, PyInt 3]) = Inr (Violations 1)
   \<and> evaluate_solution (scenario\<lparr>max_cars_per_window := (max_cars_per_window scenario)[0 := 2]\<rparr>)
        (PyList [PyInt 0, PyInt 1, PyInt 2, PyInt 3]) = Inr (Violations 0)
   \<and> (\<exists>v v'. evaluate_solution scenario (PyList [PyInt 0, PyInt 1, PyInt 2, PyInt 3])
                = Inr (Violations v)
          \<and> evaluate_solution
               (scenario\<lparr>max_cars_per_window := (max_cars_per_window scenario)[0 := 2]\<rparr>)
               (PyList [PyInt 0, PyInt 1, PyInt 2, PyInt 3]) = Inr (Violations v')
          \<and> v' \<le> v)"
proof -
  have i: "invariants scenario"
    by code_simp
  have v: "valid_permutation scenario (PyList [PyInt 0, PyInt 1, PyInt 2, PyInt 3]) [0, 1, 2, 3]"
    by code_simp
  have m: "max_cars_per_window scenario ! 0 \<le> 2"
    by code_simp
  have e1: "evaluate_solution scenario (PyList [PyInt 0, PyInt 1, PyInt 2, PyInt 3]) =
              Inr (Violations 1)"
    by code_simp
  have e2: "evaluate_solution
              (scenario\<lparr>max_cars_per_window := (max_cars_per_window scenario)[0 := 2]\<rparr>)
              (PyList [PyInt 0, PyInt 1, PyInt 2, PyInt 3]) = Inr (Violations 0)"
    by code_simp
  show ?thesis
    using i v m e1 e2 raising_limit_never_increases_score [OF i v m] by blast
qed

section \<open>The loader on a stream of the specified layout\<close>

lemma next_list_append:
  "length xs = length rng \<Longrightarrow> next_list rng (xs @ rest) = Inr (xs, rest)"
  by (induction xs rng arbitrary: rest rule: list_induct2) simp_all

lemma next_list_cases:
  "(next_list rng it = Inl StopIteration \<and> length it < length rng)
   \<or> (\<exists>xs rest. next_list rng it = Inr (xs, rest) \<and> it = xs @ rest \<and> length xs = length rng)"
proof (induction rng arbitrary: it)
  case Nil
  then show ?case by simp
next
  case (Cons u rng)
  show ?case
  proof (cases it)
    case Nil
    then show ?thesis by simp
  next
    case (Cons x it')
    from Cons.IH [of it'] show ?thesis
    proof
      assume "next_list rng it' = Inl StopIteration \<and> length it' < length rng"
      then show ?thesis using Cons by simp
    next
      assume "\<exists>xs rest. next_list rng it' = Inr (xs, rest) \<and> it' = xs @ rest \<and> length xs = length rng"
      then obtain xs rest where "next_list rng it' = Inr (xs, rest)" "it' = xs @ rest"
        "length xs = length rng" by blast
      then have "next_list (u # rng) it = Inr (x # xs, rest) \<and> it = (x # xs) @ rest
                 \<and> length (x # xs) = length (u # rng)"
        using Cons by simp
      then show ?thesis by blast
    qed
  qed
qed

lemma append_loop_replicate: "append_loop seq rng c = seq @ replicate (length rng) c"
  by (induction rng arbitrary: seq) (simp_all add: replicate_append_same)

lemma class_loop_layout:
  assumes "length cs = length classes"
    and "list_all (\<lambda>b. length (indicators b) = nat nopt) classes"
  shows "class_loop nopt cs cars opts seq (concat (map class_tokens classes) @ rest) =
         Inr (cars @ map car_count classes,
              opts @ map (\<lambda>b. map (\<lambda>x. x = 1) (indicators b)) classes,
              seq @ expand_counts cs classes, rest)"
  using assms
proof (induction cs classes arbitrary: cars opts seq rule: list_induct2)
  case Nil
  then show ?case by (simp add: expand_counts_def)
next
  case (Cons c cs b classes)
  obtain idx cnt inds where b: "b = (idx, cnt, inds)" by (cases b)
  from Cons.prems b have l: "length inds = length (py_range nopt)"
    by (simp add: length_py_range)
  have rest': "list_all (\<lambda>b. length (indicators b) = nat nopt) classes"
    using Cons.prems by simp
  have nl: "next_list (py_range nopt) (inds @ concat (map class_tokens classes) @ rest) =
            Inr (inds, concat (map class_tokens classes) @ rest)"
    using l by (rule next_list_append)
  show ?case
    using Cons.IH [OF rest'] b nl
    by (simp add: expand_counts_def append_loop_replicate length_py_range)
qed


lemma load_instance_layout:
  assumes "well_shaped nopt ncls maxs wins classes"
  shows "load_instance (layout npos nopt ncls maxs wins classes @ extra) =
         (if int (length (expand_counts (py_range (int (length classes))) classes)) \<noteq> npos
          then Inl ValueError
          else Inr \<lparr> built = described npos nopt maxs wins classes,
                     nb_cars = map car_count classes, remaining = extra \<rparr>)"
proof -
  from assms have lm: "length maxs = length (py_range nopt)"
    and lw: "length wins = length (py_range nopt)"
    and lc: "length (py_range ncls) = length classes"
    and li: "list_all (\<lambda>b. length (indicators b) = nat nopt) classes"
    by (simp_all add: well_shaped_def length_py_range)
  have pr: "py_range ncls = py_range (int (length classes))"
    using assms by (simp add: well_shaped_def py_range_def)
  have 1: "next_list (py_range nopt) (maxs @ wins @ concat (map class_tokens classes) @ extra) =
           Inr (maxs, wins @ concat (map class_tokens classes) @ extra)"
    using lm by (rule next_list_append)
  have 2: "next_list (py_range nopt) (wins @ concat (map class_tokens classes) @ extra) =
           Inr (wins, concat (map class_tokens classes) @ extra)"
    using lw by (rule next_list_append)
  have 3: "class_loop nopt (py_range ncls) [] [] [] (concat (map class_tokens classes) @ extra) =
           Inr ([] @ map car_count classes,
                [] @ map (\<lambda>b. map (\<lambda>x. x = 1) (indicators b)) classes,
                [] @ expand_counts (py_range ncls) classes, extra)"
    using lc li by (rule class_loop_layout)
  show ?thesis
    unfolding load_instance_def layout_def
    using 1 2 3 by (simp add: described_def pr)
qed

lemma class_loop_cases:
  "class_loop nopt cs cars opts seq it = Inl StopIteration
   \<or> (\<exists>classes rest. length cs = length classes
         \<and> list_all (\<lambda>b. length (indicators b) = nat nopt) classes
         \<and> it = concat (map class_tokens classes) @ rest)"
proof (induction cs arbitrary: cars opts seq it)
  case Nil
  have "length ([]::int list) = length ([]::class_block list)
        \<and> list_all (\<lambda>b. length (indicators b) = nat nopt) []
        \<and> it = concat (map class_tokens []) @ it" by simp
  then show ?case by blast
next
  case (Cons c cs)
  show ?case
  proof (cases it)
    case Nil
    then show ?thesis by simp
  next
    case it1: (Cons idx it1)
    show ?thesis
    proof (cases it1)
      case Nil
      then show ?thesis using it1 by simp
    next
      case it2: (Cons cnt it2)
      from next_list_cases [of "py_range nopt" it2] show ?thesis
      proof
        assume "next_list (py_range nopt) it2 = Inl StopIteration
                \<and> length it2 < length (py_range nopt)"
        then show ?thesis using it1 it2 by simp
      next
        assume "\<exists>xs rest. next_list (py_range nopt) it2 = Inr (xs, rest) \<and> it2 = xs @ rest
                  \<and> length xs = length (py_range nopt)"
        then obtain inds it3 where n: "next_list (py_range nopt) it2 = Inr (inds, it3)"
          "it2 = inds @ it3" "length inds = length (py_range nopt)" by blast
        let ?cars = "cars @ [cnt]" and ?opts = "opts @ [map (\<lambda>x. x = 1) inds]"
        let ?seq = "append_loop seq (py_range cnt) c"
        have step: "class_loop nopt (c # cs) cars opts seq it =
                    class_loop nopt cs ?cars ?opts ?seq it3"
          using it1 it2 n(1) by simp
        from Cons.IH [of ?cars ?opts ?seq it3] show ?thesis
        proof
          assume "class_loop nopt cs ?cars ?opts ?seq it3 = Inl StopIteration"
          then show ?thesis using step by simp
        next
          assume "\<exists>classes rest. length cs = length classes
                    \<and> list_all (\<lambda>b. length (indicators b) = nat nopt) classes
                    \<and> it3 = concat (map class_tokens classes) @ rest"
          then obtain classes rest where c: "length cs = length classes"
            "list_all (\<lambda>b. length (indicators b) = nat nopt) classes"
            "it3 = concat (map class_tokens classes) @ rest" by blast
          have "length (c # cs) = length ((idx, cnt, inds) # classes)
                \<and> list_all (\<lambda>b. length (indicators b) = nat nopt) ((idx, cnt, inds) # classes)
                \<and> it = concat (map class_tokens ((idx, cnt, inds) # classes)) @ rest"
            using c n(2,3) it1 it2 by (simp add: length_py_range)
          then show ?thesis by blast
        qed
      qed
    qed
  qed
qed

lemma load_instance_cases:
  "load_instance data = Inl StopIteration
   \<or> (\<exists>npos nopt ncls maxs wins classes extra.
         well_shaped nopt ncls maxs wins classes
         \<and> data = layout npos nopt ncls maxs wins classes @ extra)"
proof (cases data)
  case Nil
  then show ?thesis by (simp add: load_instance_def)
next
  case d1: (Cons npos d1)
  show ?thesis
  proof (cases d1)
    case Nil
    then show ?thesis using d1 by (simp add: load_instance_def)
  next
    case d2: (Cons nopt d2)
    show ?thesis
    proof (cases d2)
      case Nil
      then show ?thesis using d1 d2 by (simp add: load_instance_def)
    next
      case d3: (Cons ncls d3)
      from next_list_cases [of "py_range nopt" d3] show ?thesis
      proof
        assume "next_list (py_range nopt) d3 = Inl StopIteration \<and> length d3 < length (py_range nopt)"
        then show ?thesis using d1 d2 d3 by (simp add: load_instance_def)
      next
        assume "\<exists>xs rest. next_list (py_range nopt) d3 = Inr (xs, rest) \<and> d3 = xs @ rest
                  \<and> length xs = length (py_range nopt)"
        then obtain maxs d4 where m: "next_list (py_range nopt) d3 = Inr (maxs, d4)"
          "d3 = maxs @ d4" "length maxs = length (py_range nopt)" by blast
        from next_list_cases [of "py_range nopt" d4] show ?thesis
        proof
          assume "next_list (py_range nopt) d4 = Inl StopIteration \<and> length d4 < length (py_range nopt)"
          then show ?thesis using d1 d2 d3 m(1) by (simp add: load_instance_def)
        next
          assume "\<exists>xs rest. next_list (py_range nopt) d4 = Inr (xs, rest) \<and> d4 = xs @ rest
                    \<and> length xs = length (py_range nopt)"
          then obtain wins d5 where w: "next_list (py_range nopt) d4 = Inr (wins, d5)"
            "d4 = wins @ d5" "length wins = length (py_range nopt)" by blast
          from class_loop_cases [of nopt "py_range ncls" "[]" "[]" "[]" d5] show ?thesis
          proof
            assume "class_loop nopt (py_range ncls) [] [] [] d5 = Inl StopIteration"
            then show ?thesis using d1 d2 d3 m(1) w(1) by (simp add: load_instance_def)
          next
            assume "\<exists>classes rest. length (py_range ncls) = length classes
                      \<and> list_all (\<lambda>b. length (indicators b) = nat nopt) classes
                      \<and> d5 = concat (map class_tokens classes) @ rest"
            then obtain classes extra where c: "length (py_range ncls) = length classes"
              "list_all (\<lambda>b. length (indicators b) = nat nopt) classes"
              "d5 = concat (map class_tokens classes) @ extra" by blast
            have "well_shaped nopt ncls maxs wins classes
                  \<and> data = layout npos nopt ncls maxs wins classes @ extra"
              using d1 d2 d3 m(2,3) w(2,3) c
              by (simp add: well_shaped_def layout_def length_py_range)
            then show ?thesis by blast
          qed
        qed
      qed
    qed
  qed
qed

lemma length_class_tokens:
  "list_all (\<lambda>b. length (indicators b) = k) classes \<Longrightarrow>
   length (concat (map class_tokens classes)) = length classes * (2 + k)"
proof (induction classes)
  case Nil
  then show ?case by simp
next
  case (Cons b classes)
  obtain idx cnt inds where "b = (idx, cnt, inds)" by (cases b)
  with Cons show ?case by simp
qed

lemma length_layout:
  assumes "well_shaped nopt ncls maxs wins classes"
  shows "length (layout npos nopt ncls maxs wins classes) =
         3 + 2 * nat nopt + nat ncls * (2 + nat nopt)"
  using assms length_class_tokens [of "nat nopt" classes]
  by (simp add: well_shaped_def layout_def)


lemma count_list_replicate: "count_list (replicate n x) y = (if x = y then n else 0)"
  by (induction n) auto

lemma count_list_app: "count_list (xs @ ys) y = count_list xs y + count_list ys y"
  by (induction xs) simp_all

lemma count_expand_notin:
  "x \<notin> set cs \<Longrightarrow> count_list (expand_counts cs classes) x = 0"
proof (induction cs arbitrary: classes)
  case Nil
  then show ?case by (simp add: expand_counts_def)
next
  case (Cons c cs)
  then have ih: "count_list (expand_counts cs bs) x = 0" for bs by simp
  show ?case
  proof (cases classes)
    case Nil
    then show ?thesis by (simp add: expand_counts_def)
  next
    case (Cons b bs)
    have "expand_counts (c # cs) (b # bs) = replicate (nat (car_count b)) c @ expand_counts cs bs"
      by (simp add: expand_counts_def)
    then show ?thesis
      using Cons Cons.prems ih [of bs] by (simp add: count_list_app count_list_replicate)
  qed
qed

lemma count_expand:
  "length cs = length classes \<Longrightarrow> distinct cs \<Longrightarrow> i < length cs \<Longrightarrow>
   count_list (expand_counts cs classes) (cs ! i) = nat (car_count (classes ! i))"
proof (induction cs classes arbitrary: i rule: list_induct2)
  case Nil
  then show ?case by simp
next
  case (Cons c cs b bs)
  have e: "expand_counts (c # cs) (b # bs) = replicate (nat (car_count b)) c @ expand_counts cs bs"
    by (simp add: expand_counts_def)
  show ?case
  proof (cases i)
    case 0
    from Cons.prems have "c \<notin> set cs" by simp
    then have "count_list (expand_counts cs bs) c = 0" by (rule count_expand_notin)
    then show ?thesis using 0 by (simp add: e count_list_app count_list_replicate)
  next
    case (Suc k)
    with Cons.prems have k: "k < length cs" "distinct cs" "cs ! k \<noteq> c" by auto
    from Cons.IH [OF k(2,1)] k(3) show ?thesis
      using Suc by (simp add: e count_list_app count_list_replicate)
  qed
qed

lemma length_expand:
  "length cs = length classes \<Longrightarrow>
   int (length (expand_counts cs classes)) = (\<Sum>b\<leftarrow>classes. max 0 (car_count b))"
proof (induction cs classes rule: list_induct2)
  case Nil
  then show ?case by (simp add: expand_counts_def)
next
  case (Cons c cs b bs)
  have e: "expand_counts (c # cs) (b # bs) = replicate (nat (car_count b)) c @ expand_counts cs bs"
    by (simp add: expand_counts_def)
  show ?case using Cons.IH by (simp add: e max_def)
qed

lemma sum_max_nonneg:
  "list_all (\<lambda>b. 0 \<le> car_count b) classes \<Longrightarrow>
   (\<Sum>b\<leftarrow>classes. max 0 (car_count b)) = sum_list (map car_count classes)"
  by (induction classes) (simp_all add: max_def)

lemma distinct_py_range: "distinct (py_range n)"
  by (simp add: py_range_def distinct_map)

lemma nth_py_range: "i < nat n \<Longrightarrow> py_range n ! i = int i"
  by (simp add: py_range_def)

lemma prefix_missing:
  assumes ws: "well_shaped nopt ncls maxs wins classes"
    and short: "length data < length (layout npos nopt ncls maxs wins classes)"
    and pre: "take (length data) (layout npos nopt ncls maxs wins classes) = data"
  shows "load_instance data = Inl StopIteration"
proof (rule ccontr)
  assume n: "load_instance data \<noteq> Inl StopIteration"
  with load_instance_cases [of data] obtain npos' nopt' ncls' maxs' wins' classes' extra'
    where ws': "well_shaped nopt' ncls' maxs' wins' classes'"
      and d: "data = layout npos' nopt' ncls' maxs' wins' classes' @ extra'" by blast
  let ?L = "layout npos nopt ncls maxs wins classes"
  have l3: "3 \<le> length data" using d by (simp add: layout_def)
  have t3: "take 3 data = take 3 ?L"
  proof -
    have "take 3 (take (length data) ?L) = take 3 ?L" using l3 by (simp add: min_def)
    then show ?thesis using pre by simp
  qed
  have "take 3 data = [npos', nopt', ncls']" using d by (simp add: layout_def)
  moreover have "take 3 ?L = [npos, nopt, ncls]" by (simp add: layout_def)
  ultimately have eq: "nopt' = nopt" "ncls' = ncls" using t3 by simp_all
  have "length (layout npos' nopt' ncls' maxs' wins' classes') = length ?L"
    using length_layout [OF ws', of npos'] length_layout [OF ws, of npos] eq by simp
  moreover have "length (layout npos' nopt' ncls' maxs' wins' classes') \<le> length data"
    using d by simp
  ultimately show False using short by simp
qed


section \<open>The tokens the loader consumes\<close>

text \<open>
  The claim C7 as worded says that tokens beyond the expected count are a fatal error. The
  loader never looks at what is left in the iterator: the description of the concrete
  scenario followed by one more token (12 tokens, where 11 are expected) loads, and the token
  stays unread.
\<close>

theorem trailing_tokens_counterexample:
  "load_instance [4, 1, 2, 1, 2, 0, 2, 1, 1, 2, 0, 99] =
     Inr \<lparr> built = scenario, nb_cars = [2, 2], remaining = [99] \<rparr>
   \<and> int (length [4, 1, 2, 1, 2, 0, 2, 1, 1, 2, 0, 99 :: int]) \<noteq> 3 + 2 * 1 + 2 * (2 + 1)"
  by code_simp

text \<open>
  C7, amended. Structured-data construction consumes the token stream in the layout
  \<open>nb_positions\<close>, \<open>nb_options\<close>, \<open>nb_classes\<close>, then \<open>nb_options\<close> maximums, then
  \<open>nb_options\<close> window sizes, then per class a class-index token (ignored), a car count and
  \<open>nb_options\<close> indicators: \<open>3 + 2 * nb_options + nb_classes * (2 + nb_options)\<close> tokens
  (a negative \<open>nb_options\<close> or \<open>nb_classes\<close> counting as zero). On a stream of that layout
  followed by any further tokens the loader builds the described instance (or fails the
  length check), consuming exactly the tokens of the layout and leaving the further ones
  unread; on every proper prefix of the layout, that is when the stream is exhausted before
  all expected tokens are read, it raises \<^verbatim>\<open>StopIteration\<close>.
\<close>

theorem load_instance_token_stream:
  assumes "well_shaped nopt ncls maxs wins classes"
  shows "int (length (layout npos nopt ncls maxs wins classes)) =
           3 + 2 * max 0 nopt + max 0 ncls * (2 + max 0 nopt)
       \<and> load_instance (layout npos nopt ncls maxs wins classes @ extra) =
           (if int (length (expand_counts (py_range (int (length classes))) classes)) \<noteq> npos
            then Inl ValueError
            else Inr \<lparr> built = described npos nopt maxs wins classes,
                       nb_cars = map car_count classes, remaining = extra \<rparr>)
       \<and> (length data < length (layout npos nopt ncls maxs wins classes)
            \<and> take (length data) (layout npos nopt ncls maxs wins classes) = data
          \<longrightarrow> load_instance data = Inl StopIteration)"
proof -
  have "int (length (layout npos nopt ncls maxs wins classes)) =
          int (3 + 2 * nat nopt + nat ncls * (2 + nat nopt))"
    using length_layout [OF assms] by simp
  also have "\<dots> = 3 + 2 * max 0 nopt + max 0 ncls * (2 + max 0 nopt)"
    by (simp add: max_def algebra_simps)
  finally show ?thesis
    using load_instance_layout [OF assms] prefix_missing [OF assms] by blast
qed

theorem load_instance_token_stream_witness:
  "well_shaped 1 2 [1] [2] [(0, 2, [1]), (1, 2, [0])]
   \<and> layout 4 1 2 [1] [2] [(0, 2, [1]), (1, 2, [0])] = [4, 1, 2, 1, 2, 0, 2, 1, 1, 2, 0]
   \<and> int (length [4, 1, 2, 1, 2, 0, 2, 1, 1, 2, 0 :: int]) = 3 + 2 * 1 + 2 * (2 + 1)
   \<and> load_instance ([4, 1, 2, 1, 2, 0, 2, 1, 1, 2, 0] @ [7, 7]) =
       Inr \<lparr> built = scenario, nb_cars = [2, 2], remaining = [7, 7] \<rparr>
   \<and> load_instance [4, 1, 2, 1, 2, 0, 2, 1, 1, 2] = Inl StopIteration"
proof -
  have w: "well_shaped 1 2 [1] [2] [(0, 2, [1]), (1, 2, [0])]"
    by code_simp
  have l: "layout 4 1 2 [1] [2] [(0, 2, [1]), (1, 2, [0])] = [4, 1, 2, 1, 2, 0, 2, 1, 1, 2, 0]"
    by code_simp
  have d: "described 4 1 [1] [2] [(0, 2, [1]), (1, 2, [0])] = scenario"
    by code_simp
  have x: "int (length (expand_counts (py_range (int (length [(0, 2, [1]), (1, 2, [0 :: int])])))
                   [(0, 2, [1]), (1, 2, [0])])) = 4"
    by code_simp
  have p: "length [4, 1, 2, 1, 2, 0, 2, 1, 1, 2 :: int] < length [4, 1, 2, 1, 2, 0, 2, 1, 1, 2, 0 :: int]
           \<and> take (length [4, 1, 2, 1, 2, 0, 2, 1, 1, 2 :: int]) [4, 1, 2, 1, 2, 0, 2, 1, 1, 2, 0]
               = [4, 1, 2, 1, 2, 0, 2, 1, 1, 2 :: int]"
    by simp
  show ?thesis
    using w p load_instance_token_stream
              [OF w, of 4 "[7, 7]" "[4, 1, 2, 1, 2, 0, 2, 1, 1, 2]"]
    unfolding l d x by simp
qed

section \<open>The check of the car counts against \<open>nb_positions\<close>\<close>

text \<open>
  C8. For every structured-data construction (a stream of the specified layout, followed by
  anything, whose per-class car counts are counts, that is not negative) in which the sum of
  the car counts differs from \<open>nb_positions\<close>, construction fails with the
  \<^verbatim>\<open>ValueError\<close> "Sum of nb_cars does not equal nb_positions." raised to the caller, and
  no instance is built to be scored; and for every such construction in which the sum equals
  \<open>nb_positions\<close> no error is raised: the loader returns the described instance.
\<close>

theorem sum_check:
  assumes "well_shaped nopt ncls maxs wins classes"
    and "list_all (\<lambda>b. 0 \<le> car_count b) classes"
  shows "(sum_list (map car_count classes) \<noteq> npos \<longrightarrow>
            load_instance (layout npos nopt ncls maxs wins classes @ extra) = Inl ValueError)
       \<and> (sum_list (map car_count classes) = npos \<longrightarrow>
            load_instance (layout npos nopt ncls maxs wins classes @ extra) =
              Inr \<lparr> built = described npos nopt maxs wins classes,
                    nb_cars = map car_count classes, remaining = extra \<rparr>)"
proof -
  have "int (length (expand_counts (py_range (int (length classes))) classes)) =
        (\<Sum>b\<leftarrow>classes. max 0 (car_count b))"
    by (rule length_expand) (simp add: length_py_range)
  also have "\<dots> = sum_list (map car_count classes)"
    using assms(2) by (rule sum_max_nonneg)
  finally have len: "int (length (expand_counts (py_range (int (length classes))) classes)) =
                     sum_list (map car_count classes)" .
  show ?thesis
    using load_instance_layout [OF assms(1), of npos extra]
    unfolding len by simp
qed

theorem sum_check_witness:
  "well_shaped 1 2 [1] [2] [(0, 2, [1]), (1, 2, [0])]
   \<and> list_all (\<lambda>b. 0 \<le> car_count b) [(0, 2, [1]), (1, 2, [0])]
   \<and> sum_list (map car_count [(0, 2, [1]), (1, 2, [0])]) = 4
   \<and> load_instance [4, 1, 2, 1, 2, 0, 2, 1, 1, 2, 0] =
       Inr \<lparr> built = scenario, nb_cars = [2, 2], remaining = [] \<rparr>
   \<and> load_instance [5, 1, 2, 1, 2, 0, 2, 1, 1, 2, 0] = Inl ValueError"
proof -
  have w: "well_shaped 1 2 [1] [2] [(0, 2, [1]), (1, 2, [0])]"
    by code_simp
  have n: "list_all (\<lambda>b. 0 \<le> car_count b) [(0, 2, [1]), (1, 2, [0 :: int])]"
    by simp
  have s: "sum_list (map car_count [(0, 2, [1]), (1, 2, [0 :: int])]) = 4"
    by simp
  have l4: "layout 4 1 2 [1] [2] [(0, 2, [1]), (1, 2, [0])] @ [] = [4, 1, 2, 1, 2, 0, 2, 1, 1, 2, 0]"
    and l5: "layout 5 1 2 [1] [2] [(0, 2, [1]), (1, 2, [0])] @ [] = [5, 1, 2, 1, 2, 0, 2, 1, 1, 2, 0]"
    by code_simp+
  have d: "described 4 1 [1] [2] [(0, 2, [1]), (1, 2, [0])] = scenario"
    by code_simp
  show ?thesis
    using w n s sum_check [OF w n, of 4 "[]"] sum_check [OF w n, of 5 "[]"]
    unfolding l4 l5 d by simp
qed

section \<open>The per-class counts are reproduced\<close>

text \<open>
  C9. For every well-formed structured description (a stream of the specified layout, the
  car count of the class being a count, that is not negative) that is parsed successfully,
  and for every class \<open>c\<close> in \<open>[0, nb_classes)\<close>, the number of occurrences of the class id
  \<open>c\<close> in the constructed \<open>initial_sequence\<close> equals the car-count token of class \<open>c\<close>,
  which is also the entry the loader appended to \<open>nb_cars\<close> for it.
\<close>

theorem class_counts_reproduced:
  assumes "well_shaped nopt ncls maxs wins classes"
    and "load_instance (layout npos nopt ncls maxs wins classes @ extra) = Inr r"
    and "c < length classes" and "0 \<le> car_count (classes ! c)"
  shows "int (count_list (initial_sequence (built r)) (int c)) = car_count (classes ! c)
       \<and> nb_cars r ! c = car_count (classes ! c)
       \<and> int (length classes) = max 0 ncls"
proof -
  from assms(1,2) have r: "r = \<lparr> built = described npos nopt maxs wins classes,
                                  nb_cars = map car_count classes, remaining = extra \<rparr>"
    using load_instance_layout [OF assms(1), of npos extra] by (simp split: if_splits)
  have "count_list (expand_counts (py_range (int (length classes))) classes)
          (py_range (int (length classes)) ! c) = nat (car_count (classes ! c))"
    using assms(3) by (intro count_expand) (simp_all add: length_py_range distinct_py_range)
  then have "count_list (initial_sequence (built r)) (int c) = nat (car_count (classes ! c))"
    using assms(3) by (simp add: r described_def nth_py_range)
  moreover have "int (length classes) = max 0 ncls"
    using assms(1) by (simp add: well_shaped_def max_def)
  ultimately show ?thesis
    using assms(3,4) by (simp add: r)
qed

theorem class_counts_reproduced_witness:
  "well_shaped 1 2 [1] [2] [(0, 2, [1]), (1, 2, [0])]
   \<and> load_instance [4, 1, 2, 1, 2, 0, 2, 1, 1, 2, 0] =
       Inr \<lparr> built = scenario, nb_cars = [2, 2], remaining = [] \<rparr>
   \<and> int (count_list (initial_sequence scenario) 1) = 2
   \<and> [2, 2] ! 1 = (2 :: int)"
proof -
  have w: "well_shaped 1 2 [1] [2] [(0, 2, [1]), (1, 2, [0])]"
    by code_simp
  have l: "layout 4 1 2 [1] [2] [(0, 2, [1]), (1, 2, [0])] @ [] = [4, 1, 2, 1, 2, 0, 2, 1, 1, 2, 0]"
    by code_simp
  have e: "load_instance [4, 1, 2, 1, 2, 0, 2, 1, 1, 2, 0] =
             Inr \<lparr> built = scenario, nb_cars = [2, 2], remaining = [] \<rparr>"
    by code_simp
  have c: "(1 :: nat) < length [(0 :: int, 2 :: int, [1 :: int]), (1, 2, [0])]"
    and g: "0 \<le> car_count ([(0, 2, [1]), (1, 2, [0])] ! 1)"
    by simp_all
  show ?thesis
    using w e class_counts_reproduced [OF w e [folded l] c g]
    by simp
qed

section \<open>Candidates that are not a list or a tuple\<close>

text \<open>
  C10. \<^verbatim>\<open>evaluate_solution\<close> returns the sentinel for every candidate object that is not a
  Python list or tuple, whatever its contents and whatever the instance: a range or an array
  holding exactly the permutation \<open>0, ..., nb_positions - 1\<close> is rejected, not scored.
\<close>

theorem not_list_or_tuple_penalty:
  "\<not> isinstance_list_tuple solution \<Longrightarrow> evaluate_solution self solution = Inr PENALTY"
  by (simp add: evaluate_solution_def)

theorem not_list_or_tuple_penalty_witness:
  "\<not> isinstance_list_tuple (PySequence [PyInt 0, PyInt 1, PyInt 2, PyInt 3])
   \<and> evaluate_solution scenario (PySequence [PyInt 0, PyInt 1, PyInt 2, PyInt 3]) = Inr PENALTY
   \<and> evaluate_solution scenario (PyList [PyInt 0, PyInt 1, PyInt 2, PyInt 3]) = Inr (Violations 1)"
proof -
  have h: "\<not> isinstance_list_tuple (PySequence [PyInt 0, PyInt 1, PyInt 2, PyInt 3])"
    by simp
  have s: "evaluate_solution scenario (PyList [PyInt 0, PyInt 1, PyInt 2, PyInt 3]) = Inr (Violations 1)"
    by code_simp
  show ?thesis
    using h not_list_or_tuple_penalty [OF h, of scenario] s by simp
qed

end
